theory Spec2Isabelle
  imports Main "HOL-Library.Sublist"
begin

section \<open>Python strings and lists\<close>

text \<open>
  A Python \<open>str\<close> is modelled as a \<open>string\<close>: one \<open>char\<close> stands for one code point of
  the source text. The operations below are the built-ins that \<open>EntityCorrect\<close> calls, with
  the cases in which Python raises written out as values of \<open>error\<close>.
\<close>

datatype error = FileNotFoundError | ValueError | KeyError | IndexError | AttributeError

text \<open>\<open>str.isspace\<close> on the code points below 256; \<open>re\<close>'s \<open>\s\<close> matches the same ones.\<close>

definition isspace :: "char \<Rightarrow> bool" where
  "isspace c = (c \<in> set [CHR 0x09, CHR 0x0A, CHR 0x0B, CHR 0x0C, CHR 0x0D,
                          CHR 0x1C, CHR 0x1D, CHR 0x1E, CHR 0x1F, CHR 0x20,
                          CHR 0x85, CHR 0xA0])"

text \<open>\<open>re.sub('\s+', '', s)\<close>: every maximal run of whitespace is deleted.\<close>

definition re_sub_ws :: "string \<Rightarrow> string" where
  "re_sub_ws s = filter (\<lambda>c. \<not> isspace c) s"

text \<open>\<open>s.strip()\<close>\<close>

definition strip :: "string \<Rightarrow> string" where
  "strip s = rev (dropWhile isspace (rev (dropWhile isspace s)))"

text \<open>
  \<open>s.split(sep)\<close> cuts at the non-overlapping occurrences of \<open>sep\<close>, leftmost first, and
  raises \<open>ValueError\<close> on an empty separator.
\<close>

fun split_ne :: "string \<Rightarrow> string \<Rightarrow> string list" where
  "split_ne sep [] = [[]]"
| "split_ne sep (c # cs) =
     (if sep \<noteq> [] \<and> prefix sep (c # cs)
      then [] # split_ne sep (drop (length sep) (c # cs))
      else (case split_ne sep cs of
              [] \<Rightarrow> [[c]]
            | p # ps \<Rightarrow> (c # p) # ps))"

definition split_str :: "string \<Rightarrow> string \<Rightarrow> error + string list" where
  "split_str s sep = (if sep = [] then Inl ValueError else Inr (split_ne sep s))"

text \<open>\<open>sep.join(parts)\<close>\<close>

fun join_str :: "string \<Rightarrow> string list \<Rightarrow> string" where
  "join_str sep [] = []"
| "join_str sep [p] = p"
| "join_str sep (p # q # ps) = p @ sep @ join_str sep (q # ps)"

text \<open>\<open>s.find(sub)\<close>: the lowest index at which \<open>sub\<close> starts in \<open>s\<close>, or \<open>-1\<close>.\<close>

fun find_from :: "nat \<Rightarrow> string \<Rightarrow> string \<Rightarrow> int" where
  "find_from i [] sub = (if sub = [] then int i else - 1)"
| "find_from i (c # cs) sub =
     (if prefix sub (c # cs) then int i else find_from (Suc i) cs sub)"

definition find_str :: "string \<Rightarrow> string \<Rightarrow> int" where
  "find_str s sub = find_from 0 s sub"

text \<open>\<open>sub in s\<close> on strings\<close>

fun str_in :: "string \<Rightarrow> string \<Rightarrow> bool" where
  "str_in sub [] = (sub = [])"
| "str_in sub (c # cs) = (prefix sub (c # cs) \<or> str_in sub cs)"

text \<open>
  \<open>s[a:b]\<close> with integer bounds: a negative bound counts from the end, and both are
  clipped to the string.
\<close>

definition clip :: "int \<Rightarrow> nat \<Rightarrow> nat" where
  "clip i n = (if i < 0 then nat (max 0 (i + int n)) else min (nat i) n)"

definition slice :: "'a list \<Rightarrow> int \<Rightarrow> int \<Rightarrow> 'a list" where
  "slice s a b = (let lo = clip a (length s); hi = clip b (length s)
                  in take (hi - lo) (drop lo s))"

text \<open>
  \<open>s.replace(old, new)\<close> replaces the non-overlapping occurrences of \<open>old\<close>, leftmost
  first; an empty \<open>old\<close> matches before every character and at the end.
\<close>

fun replace_ne :: "string \<Rightarrow> string \<Rightarrow> string \<Rightarrow> string" where
  "replace_ne old new [] = []"
| "replace_ne old new (c # cs) =
     (if old \<noteq> [] \<and> prefix old (c # cs)
      then new @ replace_ne old new (drop (length old) (c # cs))
      else c # replace_ne old new cs)"

definition replace_str :: "string \<Rightarrow> string \<Rightarrow> string \<Rightarrow> string" where
  "replace_str s old new =
     (if old = [] then new @ concat (map (\<lambda>c. c # new) s) else replace_ne old new s)"

text \<open>\<open>xs.pop(i)\<close> for \<open>i \<ge> 0\<close>: \<open>IndexError\<close> when \<open>i\<close> is out of range.\<close>

definition pop :: "'a list \<Rightarrow> nat \<Rightarrow> error + 'a list" where
  "pop xs i = (if i < length xs then Inr (take i xs @ drop (Suc i) xs) else Inl IndexError)"

section \<open>The collaborators outside the repository\<close>

text \<open>
  Modelled from the spec: the multi-pattern automaton of the \<open>ahocorasick\<close> library, which is
  not part of the sources. A trie is the association of the keys added with \<open>add_word\<close> to
  their values; adding a key again replaces its value.
\<close>

type_synonym automaton = "(string \<times> (nat \<times> string)) list"

fun trie_set :: "automaton \<Rightarrow> string \<Rightarrow> nat \<times> string \<Rightarrow> automaton" where
  "trie_set [] k v = [(k, v)]"
| "trie_set ((k', v') # a) k v =
     (if k = k' then (k, v) # a else (k', v') # trie_set a k v)"

text \<open>
  Modelled from the spec: \<open>Automaton.add_word\<close> of the \<open>ahocorasick\<close> library (not part of
  the sources); the empty key is not stored.
\<close>

definition add_word :: "automaton \<Rightarrow> string \<Rightarrow> nat \<times> string \<Rightarrow> automaton" where
  "add_word a k v = (if k = [] then a else trie_set a k v)"

text \<open>
  Modelled from the spec: the values that the scan of the \<open>ahocorasick\<close> library (not part of
  the sources) reports when it has read \<open>pre\<close>: one for each stored key that is a non-empty
  suffix of \<open>pre\<close>, the longest first.
\<close>

definition outputs_at :: "automaton \<Rightarrow> string \<Rightarrow> (nat \<times> string) list" where
  "outputs_at a pre = List.map_filter (\<lambda>i. map_of a (drop i pre)) [0..<length pre]"

text \<open>
  Modelled from the spec: the scan of the \<open>ahocorasick\<close> library (not part of the sources),
  which reports every occurrence of every stored key as a pair of the index of its last
  character and its value.
\<close>

definition reports :: "automaton \<Rightarrow> string \<Rightarrow> (nat \<times> (nat \<times> string)) list" where
  "reports a text =
     concat (map (\<lambda>e. map (\<lambda>v. (e, v)) (outputs_at a (take (Suc e) text)))
                 [0..<length text])"

text \<open>
  Modelled from the spec: \<open>Automaton.iter\<close> of the \<open>ahocorasick\<close> library (not part of the
  sources). \<open>make_automaton\<close> turns the trie into an automaton only when it holds a key, and
  \<open>iter\<close> on a trie that was not turned into one raises \<open>AttributeError\<close>.
\<close>

definition iter :: "automaton \<Rightarrow> string \<Rightarrow> error + (nat \<times> (nat \<times> string)) list" where
  "iter a text = (if a = [] then Inl AttributeError else Inr (reports a text))"

text \<open>
  The transliteration service (\<open>xpinyin.Pinyin.get_pinyin\<close>) is a parameter of the engine:
  a function from a text and a delimiter to the delimiter-joined token string.
\<close>

type_synonym transliterate = "string \<Rightarrow> string \<Rightarrow> string"

section \<open>The engine\<close>

subsection \<open>\<open>_get_synonym\<close>\<close>

text \<open>
  The inner loop over the fields of one line. \<open>self.pinyin\<close> and \<open>self.splitter_symbol\<close>
  are the two attributes that \<open>__init__\<close> has set when it calls the method.
\<close>

fun word_loop ::
  "transliterate \<Rightarrow> string \<Rightarrow> bool \<Rightarrow> string \<Rightarrow> string list \<Rightarrow>
   (string \<rightharpoonup> string) \<times> string list \<Rightarrow> (string \<rightharpoonup> string) \<times> string list" where
  "word_loop py sp up standard_word [] st = st"
| "word_loop py sp up standard_word (w # ws) (synonym_dict, word_all) =
     (let word = (if up then py w sp else w)
      in word_loop py sp up standard_word ws
           (synonym_dict(word \<mapsto> standard_word),
            if word \<in> set word_all then word_all else word_all @ [word]))"

fun line_loop ::
  "transliterate \<Rightarrow> string \<Rightarrow> bool \<Rightarrow> string list \<Rightarrow>
   (string \<rightharpoonup> string) \<times> string list \<Rightarrow> error + (string \<rightharpoonup> string) \<times> string list" where
  "line_loop py sp up [] st = Inr st"
| "line_loop py sp up (line # lines) st =
     (case split_str (strip line) [CHR 0x09] of
        Inl e \<Rightarrow> Inl e
      | Inr word_list \<Rightarrow>
          (case word_list of
             [] \<Rightarrow> Inl IndexError
           | standard_word # _ \<Rightarrow>
               line_loop py sp up lines (word_loop py sp up standard_word word_list st)))"

text \<open>The file system is a map from paths to the lines of the file.\<close>

definition get_synonym ::
  "transliterate \<Rightarrow> string \<Rightarrow> (string \<rightharpoonup> string list) \<Rightarrow> string \<Rightarrow> bool \<Rightarrow>
   error + (string \<rightharpoonup> string) \<times> string list" where
  "get_synonym py sp fs file_path up =
     (case fs file_path of
        None \<Rightarrow> Inl FileNotFoundError
      | Some lines \<Rightarrow> line_loop py sp up lines (Map.empty, []))"

subsection \<open>\<open>_build_actree\<close>\<close>

fun add_words :: "automaton \<Rightarrow> nat \<Rightarrow> string list \<Rightarrow> automaton" where
  "add_words actree index [] = actree"
| "add_words actree index (word # wordlist) =
     add_words (add_word actree word (index, word)) (Suc index) wordlist"

definition build_actree :: "string list \<Rightarrow> automaton" where
  "build_actree wordlist = add_words [] 0 wordlist"

subsection \<open>\<open>__init__\<close>\<close>

record engine =
  pinyin :: transliterate
  splitter_symbol :: string
  use_pinyin :: bool
  synonym_dict :: "string \<rightharpoonup> string"
  ac_synonym :: automaton

definition init ::
  "transliterate \<Rightarrow> (string \<rightharpoonup> string list) \<Rightarrow> string \<Rightarrow> bool \<Rightarrow> string \<Rightarrow> error + engine" where
  "init py fs synonym_path up sp =
     (case get_synonym py sp fs synonym_path up of
        Inl e \<Rightarrow> Inl e
      | Inr (d, synonym_list) \<Rightarrow>
          Inr \<lparr>pinyin = py, splitter_symbol = sp, use_pinyin = up,
               synonym_dict = d, ac_synonym = build_actree synonym_list\<rparr>)"

subsection \<open>\<open>get_index\<close>\<close>

definition get_index :: "engine \<Rightarrow> string \<Rightarrow> string \<Rightarrow> bool \<Rightarrow> error + int \<times> int \<times> string" where
  "get_index self text synonym up =
     (if up then
        (case split_str synonym (splitter_symbol self) of
           Inl e \<Rightarrow> Inl e
         | Inr ws \<Rightarrow>
             (case split_str (slice text 0 (find_str text synonym)) ''@@'' of
                Inl e \<Rightarrow> Inl e
              | Inr segs \<Rightarrow>
                  (let word_len = int (length ws);
                       start_index = int (length segs) - 1;
                       end_index = start_index + word_len
                   in Inr (start_index, end_index, synonym))))
      else
        (let word_len = int (length synonym);
             start_index = find_str text synonym;
             end_index = start_index + word_len
         in Inr (start_index, end_index, synonym)))"

subsection \<open>\<open>run\<close>\<close>

text \<open>The inner loop over \<open>j\<close> of the overlap rule, for a fixed \<open>i\<close>.\<close>

fun mark_inner :: "string list \<Rightarrow> nat \<Rightarrow> nat list \<Rightarrow> nat list \<Rightarrow> nat list" where
  "mark_inner match_synonym i [] del_index = del_index"
| "mark_inner match_synonym i (j # js) del_index =
     mark_inner match_synonym i js
       (if i \<noteq> j \<and> str_in (match_synonym ! i) (match_synonym ! j)
        then (if i \<notin> set del_index then del_index @ [i] else del_index)
        else del_index)"

text \<open>The loop over \<open>i\<close>; both loops range over \<open>range(len(match_synonym))\<close>.\<close>

fun mark_loop ::
  "engine \<Rightarrow> string \<Rightarrow> string list \<Rightarrow> nat list \<Rightarrow>
   (int \<times> int \<times> string) list \<times> nat list \<Rightarrow> error + (int \<times> int \<times> string) list \<times> nat list" where
  "mark_loop self text_trans match_synonym [] st = Inr st"
| "mark_loop self text_trans match_synonym (i # is) (word_index_list, del_index) =
     (case get_index self text_trans (match_synonym ! i) (use_pinyin self) of
        Inl e \<Rightarrow> Inl e
      | Inr word_index \<Rightarrow>
          mark_loop self text_trans match_synonym is
            (word_index_list @ [word_index],
             mark_inner match_synonym i [0..<length match_synonym] del_index))"

text \<open>\<open>for index in del_index: word_index_list.pop(index)\<close>\<close>

fun pop_loop :: "nat list \<Rightarrow> 'a list \<Rightarrow> error + 'a list" where
  "pop_loop [] word_index_list = Inr word_index_list"
| "pop_loop (index # del_index) word_index_list =
     (case pop word_index_list index of
        Inl e \<Rightarrow> Inl e
      | Inr word_index_list' \<Rightarrow> pop_loop del_index word_index_list')"

text \<open>The substitution loop, on \<open>(update_text, standard_synonym, standard_namelist)\<close>.\<close>

fun assemble ::
  "engine \<Rightarrow> string \<Rightarrow> (int \<times> int \<times> string) list \<Rightarrow>
   string \<times> (string \<times> string) list \<times> string list \<Rightarrow>
   error + string \<times> (string \<times> string) list \<times> string list" where
  "assemble self text_raw [] st = Inr st"
| "assemble self text_raw ((start_index, end_index, synonym) # items)
            (update_text, standard_synonym, standard_namelist) =
     (case synonym_dict self synonym of
        None \<Rightarrow> Inl KeyError
      | Some standard_name \<Rightarrow>
          (let replace_word = slice text_raw start_index end_index
           in assemble self text_raw items
                (replace_str update_text replace_word standard_name,
                 standard_synonym @ [(standard_name, synonym)],
                 if standard_name \<notin> set standard_namelist
                 then standard_namelist @ [standard_name] else standard_namelist)))"

text \<open>The first lines of \<open>run\<close>: normalisation, transliteration, scan.\<close>

definition normalize_ws :: "string \<Rightarrow> string" where
  "normalize_ws text_raw = strip (re_sub_ws text_raw)"

definition text_trans :: "engine \<Rightarrow> string \<Rightarrow> string" where
  "text_trans self text_raw =
     (if use_pinyin self then pinyin self (normalize_ws text_raw) (splitter_symbol self)
      else normalize_ws text_raw)"

definition match_synonym :: "engine \<Rightarrow> string \<Rightarrow> error + string list" where
  "match_synonym self text_raw =
     (case iter (ac_synonym self) (text_trans self text_raw) of
        Inl e \<Rightarrow> Inl e
      | Inr ac_match \<Rightarrow> Inr (map (\<lambda>(end_index, (index, word_match)). word_match) ac_match))"

text \<open>The overlap resolution of \<open>run\<close>: the marking loops, then the removal loop.\<close>

definition resolve :: "engine \<Rightarrow> string \<Rightarrow> string list \<Rightarrow> error + (int \<times> int \<times> string) list" where
  "resolve self scanned ms =
     (case mark_loop self scanned ms [0..<length ms] ([], []) of
        Inl e \<Rightarrow> Inl e
      | Inr (word_index_list, del_index) \<Rightarrow> pop_loop del_index word_index_list)"

text \<open>\<open>run\<close> up to the end of the removal loop: the \<open>word_index_list\<close> that is substituted.\<close>

definition resolved :: "engine \<Rightarrow> string \<Rightarrow> error + (int \<times> int \<times> string) list" where
  "resolved self text_raw =
     (case match_synonym self text_raw of
        Inl e \<Rightarrow> Inl e
      | Inr ms \<Rightarrow> resolve self (text_trans self text_raw) ms)"

text \<open>\<open>run\<close> up to the last statement before the pairs are turned into a set.\<close>

definition run_lists ::
  "engine \<Rightarrow> string \<Rightarrow> error + string \<times> (string \<times> string) list \<times> string list" where
  "run_lists self text_raw =
     (case resolved self text_raw of
        Inl e \<Rightarrow> Inl e
      | Inr word_index_list \<Rightarrow>
          assemble self (normalize_ws text_raw) word_index_list (normalize_ws text_raw, [], []))"

text \<open>
  \<open>list(set(standard_synonym))\<close> is a list without duplicates in an order that Python does
  not fix; the result carries the set.
\<close>

definition run ::
  "engine \<Rightarrow> string \<Rightarrow> error + string \<times> (string \<times> string) set \<times> string list" where
  "run self text_raw =
     (case run_lists self text_raw of
        Inl e \<Rightarrow> Inl e
      | Inr (update_text, standard_synonym, standard_namelist) \<Rightarrow>
          Inr (update_text, set standard_synonym, standard_namelist))"

subsection \<open>The method calls as transformers of the engine object\<close>

text \<open>
  A method of the class receives the object \<open>self\<close> and may assign to its attributes. A call
  is therefore a function from the object before the call to the value returned (or the
  exception raised) and the object after the call. The bodies below are the statements of
  \<open>get_index\<close> and \<open>run\<close> once more, in this form: reading an attribute is \<open>m_read\<close>, a
  computation on local values is \<open>m_lift\<close>, and each statement hands the object on to the
  next one through \<open>m_bind\<close>. An assignment to an attribute would be a step \<open>m_assign\<close>,
  after which the object is another one (\<open>m_assign_seen\<close>); the two methods contain none.
\<close>

type_synonym 'a call = "engine \<Rightarrow> (error + 'a) \<times> engine"

definition m_return :: "'a \<Rightarrow> 'a call" where
  "m_return x = (\<lambda>self. (Inr x, self))"

definition m_raise :: "error \<Rightarrow> 'a call" where
  "m_raise e = (\<lambda>self. (Inl e, self))"

definition m_read :: "(engine \<Rightarrow> 'a) \<Rightarrow> 'a call" where
  "m_read attribute = (\<lambda>self. (Inr (attribute self), self))"

definition m_lift :: "error + 'a \<Rightarrow> 'a call" where
  "m_lift r = (\<lambda>self. (r, self))"

text \<open>An assignment to attributes of \<open>self\<close>; no statement of the two methods is one.\<close>

definition m_assign :: "(engine \<Rightarrow> engine) \<Rightarrow> unit call" where
  "m_assign change = (\<lambda>self. (Inr (), change self))"

definition m_bind :: "'a call \<Rightarrow> ('a \<Rightarrow> 'b call) \<Rightarrow> 'b call" where
  "m_bind m f =
     (\<lambda>self. case m self of
                (Inl e, self') \<Rightarrow> (Inl e, self')
              | (Inr x, self') \<Rightarrow> f x self')"

definition get_index_m :: "string \<Rightarrow> string \<Rightarrow> bool \<Rightarrow> (int \<times> int \<times> string) call" where
  "get_index_m text synonym up =
     (if up then
        m_bind (m_read splitter_symbol) (\<lambda>sp.
        m_bind (m_lift (split_str synonym sp)) (\<lambda>ws.
        m_bind (m_lift (split_str (slice text 0 (find_str text synonym)) ''@@'')) (\<lambda>segs.
        m_return (int (length segs) - 1, int (length segs) - 1 + int (length ws), synonym))))
      else
        m_return (find_str text synonym, find_str text synonym + int (length synonym), synonym))"

fun mark_loop_m ::
  "string \<Rightarrow> string list \<Rightarrow> nat list \<Rightarrow> (int \<times> int \<times> string) list \<times> nat list \<Rightarrow>
   ((int \<times> int \<times> string) list \<times> nat list) call" where
  "mark_loop_m scanned ms [] st = m_return st"
| "mark_loop_m scanned ms (i # is) (word_index_list, del_index) =
     m_bind (m_read use_pinyin) (\<lambda>up.
     m_bind (get_index_m scanned (ms ! i) up) (\<lambda>word_index.
     mark_loop_m scanned ms is
       (word_index_list @ [word_index], mark_inner ms i [0..<length ms] del_index)))"

fun assemble_m ::
  "string \<Rightarrow> (int \<times> int \<times> string) list \<Rightarrow>
   string \<times> (string \<times> string) list \<times> string list \<Rightarrow>
   (string \<times> (string \<times> string) list \<times> string list) call" where
  "assemble_m text_raw [] st = m_return st"
| "assemble_m text_raw ((start_index, end_index, synonym) # items)
              (update_text, standard_synonym, standard_namelist) =
     m_bind (m_read synonym_dict) (\<lambda>d.
       (case d synonym of
          None \<Rightarrow> m_raise KeyError
        | Some standard_name \<Rightarrow>
            assemble_m text_raw items
              (replace_str update_text (slice text_raw start_index end_index) standard_name,
               standard_synonym @ [(standard_name, synonym)],
               if standard_name \<notin> set standard_namelist
               then standard_namelist @ [standard_name] else standard_namelist)))"

definition run_m :: "string \<Rightarrow> (string \<times> (string \<times> string) set \<times> string list) call" where
  "run_m text_raw =
     m_bind (m_read use_pinyin) (\<lambda>up.
     m_bind (if up
             then m_bind (m_read pinyin) (\<lambda>py.
                  m_bind (m_read splitter_symbol) (\<lambda>sp.
                  m_return (py (normalize_ws text_raw) sp)))
             else m_return (normalize_ws text_raw)) (\<lambda>scanned.
     m_bind (m_read ac_synonym) (\<lambda>actree.
     m_bind (m_lift (iter actree scanned)) (\<lambda>ac_match.
     m_bind (m_return (map (\<lambda>(end_index, (index, word_match)). word_match) ac_match)) (\<lambda>ms.
     m_bind (mark_loop_m scanned ms [0..<length ms] ([], [])) (\<lambda>(word_index_list, del_index).
     m_bind (m_lift (pop_loop del_index word_index_list)) (\<lambda>word_index_list'.
     m_bind (assemble_m (normalize_ws text_raw) word_index_list'
               (normalize_ws text_raw, [], [])) (\<lambda>(update_text, standard_synonym, standard_namelist).
     m_return (update_text, set standard_synonym, standard_namelist)))))))))"

section \<open>Notions used in the statements\<close>

text \<open>\<open>line.strip().split("\t")\<close>, the fields of one line of the dictionary file.\<close>

definition fields :: "string \<Rightarrow> string list" where
  "fields line = split_ne [CHR 0x09] (strip line)"

text \<open>The key under which \<open>_get_synonym\<close> stores a field: the field or its transliteration.\<close>

definition match_key :: "transliterate \<Rightarrow> string \<Rightarrow> bool \<Rightarrow> string \<Rightarrow> string" where
  "match_key py sp up w = (if up then py w sp else w)"

text \<open>The condition under which the loops of \<open>run\<close> append \<open>i\<close> to \<open>del_index\<close>.\<close>

definition marked :: "string list \<Rightarrow> nat \<Rightarrow> bool" where
  "marked m i = list_ex (\<lambda>j. i \<noteq> j \<and> str_in (m ! i) (m ! j)) [0..<length m]"

text \<open>
  Following the spec's words: a sequence deduplicated in order, the first occurrence of each
  element kept. It is compared below with the \<open>standard_namelist\<close> that the loop builds.
\<close>

primrec dedup_first :: "'a list \<Rightarrow> 'a list" where
  "dedup_first [] = []"
| "dedup_first (x # xs) = x # filter (\<lambda>y. y \<noteq> x) (dedup_first xs)"

text \<open>
  The change of \<open>update_text\<close> in one iteration of the substitution loop. (With a key missing
  from the dictionary \<open>run\<close> has raised \<open>KeyError\<close>; the text is then left as it is.)
\<close>

fun substitute :: "engine \<Rightarrow> string \<Rightarrow> string \<Rightarrow> int \<times> int \<times> string \<Rightarrow> string" where
  "substitute self text_raw update_text (start_index, end_index, synonym) =
     (case synonym_dict self synonym of
        None \<Rightarrow> update_text
      | Some standard_name \<Rightarrow>
          replace_str update_text (slice text_raw start_index end_index) standard_name)"

section \<open>Example engines\<close>

text \<open>
  A transliteration with one token per character, the token being the character itself; it
  stands for the service in the examples.
\<close>

definition letters :: transliterate where
  "letters text sp = join_str sp (map (\<lambda>c. [c]) text)"

text \<open>Three nested variants: \<open>a\<close>, \<open>ab\<close> and \<open>abc\<close>, each with a canonical name of its own.\<close>

definition nested_lines :: "string list" where
  "nested_lines = [''X'' @ [CHR 0x09] @ ''a'' @ [CHR 0x0A],
                   ''Y'' @ [CHR 0x09] @ ''ab'' @ [CHR 0x0A],
                   ''Z'' @ [CHR 0x09] @ ''abc'' @ [CHR 0x0A]]"

definition nested_engine :: engine where
  "nested_engine =
     \<lparr>pinyin = letters, splitter_symbol = ''@@'', use_pinyin = False,
      synonym_dict = [''X'' \<mapsto> ''X'', ''a'' \<mapsto> ''X'', ''Y'' \<mapsto> ''Y'', ''ab'' \<mapsto> ''Y'',
                      ''Z'' \<mapsto> ''Z'', ''abc'' \<mapsto> ''Z''],
      ac_synonym = [(''X'', 0, ''X''), (''a'', 1, ''a''), (''Y'', 2, ''Y''), (''ab'', 3, ''ab''),
                    (''Z'', 4, ''Z''), (''abc'', 5, ''abc'')]\<rparr>"

text \<open>Two unrelated entries.\<close>

definition repeat_lines :: "string list" where
  "repeat_lines = [''A'' @ [CHR 0x09] @ ''a'' @ [CHR 0x0A], ''C'' @ [CHR 0x09] @ ''c'' @ [CHR 0x0A]]"

definition repeat_engine :: engine where
  "repeat_engine =
     \<lparr>pinyin = letters, splitter_symbol = ''@@'', use_pinyin = False,
      synonym_dict = [''A'' \<mapsto> ''A'', ''a'' \<mapsto> ''A'', ''C'' \<mapsto> ''C'', ''c'' \<mapsto> ''C''],
      ac_synonym = [(''A'', 0, ''A''), (''a'', 1, ''a''), (''C'', 2, ''C''), (''c'', 3, ''c'')]\<rparr>"



text \<open>A first record with a canonical name and no variant.\<close>

definition bank_lines :: "string list" where
  "bank_lines = [''N'' @ [CHR 0x0A], ''Z'' @ [CHR 0x09] @ ''z'' @ [CHR 0x0A]]"

definition bank_engine :: engine where
  "bank_engine =
     \<lparr>pinyin = letters, splitter_symbol = ''@@'', use_pinyin = False,
      synonym_dict = [''N'' \<mapsto> ''N'', ''Z'' \<mapsto> ''Z'', ''z'' \<mapsto> ''Z''],
      ac_synonym = [(''N'', 0, ''N''), (''Z'', 1, ''Z''), (''z'', 2, ''z'')]\<rparr>"

text \<open>Phonetic mode with the delimiter \<open>-\<close>.\<close>

definition dash_lines :: "string list" where
  "dash_lines = [''Z'' @ [CHR 0x09] @ ''hm'' @ [CHR 0x0A]]"

definition dash_engine :: engine where
  "dash_engine =
     \<lparr>pinyin = letters, splitter_symbol = ''-'', use_pinyin = True,
      synonym_dict = [''Z'' \<mapsto> ''Z'', ''h-m'' \<mapsto> ''Z''],
      ac_synonym = [(''Z'', 0, ''Z''), (''h-m'', 1, ''h-m'')]\<rparr>"

text \<open>Phonetic mode with the default delimiter, on the same file.\<close>

definition phon_engine :: engine where
  "phon_engine =
     \<lparr>pinyin = letters, splitter_symbol = ''@@'', use_pinyin = True,
      synonym_dict = [''Z'' \<mapsto> ''Z'', ''h@@m'' \<mapsto> ''Z''],
      ac_synonym = [(''Z'', 0, ''Z''), (''h@@m'', 1, ''h@@m'')]\<rparr>"

text \<open>A canonical name with a blank in it.\<close>

definition spaced_lines :: "string list" where
  "spaced_lines = [''A B'' @ [CHR 0x09] @ ''c'' @ [CHR 0x0A]]"

definition spaced_engine :: engine where
  "spaced_engine =
     \<lparr>pinyin = letters, splitter_symbol = ''@@'', use_pinyin = False,
      synonym_dict = [''A B'' \<mapsto> ''A B'', ''c'' \<mapsto> ''A B''],
      ac_synonym = [(''A B'', 0, ''A B''), (''c'', 1, ''c'')]\<rparr>"


section \<open>Properties of the string operations\<close>

lemma split_ne_not_Nil: "split_ne sep s \<noteq> []"
  by (induction sep s rule: split_ne.induct) (auto split: list.splits)

lemma str_in_sublist: "str_in sub s \<longleftrightarrow> sublist sub s"
  by (induction s) (auto simp: sublist_Cons_right)

lemma find_from_spec:
  "str_in sub s \<Longrightarrow>
   \<exists>n. find_from i s sub = int (i + n) \<and> n + length sub \<le> length s \<and>
       take (length sub) (drop n s) = sub \<and> (\<forall>m<n. \<not> prefix sub (drop m s))"
proof (induction s arbitrary: i)
  case Nil
  then show ?case by simp
next
  case (Cons c cs)
  show ?case
  proof (cases "prefix sub (c # cs)")
    case True
    then obtain zs where zs: "c # cs = sub @ zs" by (auto simp: prefix_def)
    have "length sub \<le> length (c # cs)" "take (length sub) (c # cs) = sub"
      unfolding zs by simp_all
    with True show ?thesis by (intro exI[of _ 0]) simp
  next
    case False
    with Cons.prems have "str_in sub cs" by simp
    from Cons.IH[OF this, of "Suc i"] obtain n where n:
      "find_from (Suc i) cs sub = int (Suc i + n)" "n + length sub \<le> length cs"
      "take (length sub) (drop n cs) = sub" "\<forall>m<n. \<not> prefix sub (drop m cs)"
      by blast
    have "\<forall>m<Suc n. \<not> prefix sub (drop m (c # cs))"
    proof (intro allI impI)
      fix m assume "m < Suc n"
      then show "\<not> prefix sub (drop m (c # cs))"
        using False n(4) by (cases m) auto
    qed
    with False n show ?thesis by (intro exI[of _ "Suc n"]) simp
  qed
qed

lemma find_from_absent: "\<not> str_in sub s \<Longrightarrow> find_from i s sub = - 1"
  by (induction s arbitrary: i) auto

lemma slice_nat:
  "n + l \<le> length s \<Longrightarrow> slice s (int n) (int n + int l) = take l (drop n s)"
  by (simp add: slice_def clip_def Let_def min_def flip: of_nat_add)

lemma find_slice:
  assumes "str_in sub s"
  shows "slice s (find_str s sub) (find_str s sub + int (length sub)) = sub"
proof -
  from find_from_spec[OF assms, of 0] obtain n where
    "find_str s sub = int n" "n + length sub \<le> length s" "take (length sub) (drop n s) = sub"
    by (auto simp: find_str_def)
  then show ?thesis by (simp add: slice_nat)
qed



lemma split_ne_join: "sep \<noteq> [] \<Longrightarrow> join_str sep (split_ne sep s) = s"
proof (induction sep s rule: split_ne.induct)
  case (1 sep)
  then show ?case by simp
next
  case (2 sep c cs)
  show ?case
  proof (cases "prefix sep (c # cs)")
    case True
    let ?r = "drop (length sep) (c # cs)"
    have r: "sep @ ?r = c # cs" using True by (metis append_eq_conv_conj prefix_def)
    have sp: "split_ne sep (c # cs) = [] # split_ne sep ?r" using True 2(3) by simp
    have ih: "join_str sep (split_ne sep ?r) = ?r" using True 2 by simp
    obtain p ps where ps: "split_ne sep ?r = p # ps"
      using split_ne_not_Nil[of sep ?r] by (cases "split_ne sep ?r") auto
    have "join_str sep ([] # p # ps) = sep @ join_str sep (p # ps)" by simp
    then show ?thesis using r ih unfolding sp ps by simp
  next
    case False
    with 2 have ih: "join_str sep (split_ne sep cs) = cs" by simp
    obtain p ps where ps: "split_ne sep cs = p # ps"
      using split_ne_not_Nil[of sep cs] by (cases "split_ne sep cs") auto
    with ih False show ?thesis by (cases ps) auto
  qed
qed

lemma replace_ne_split_join:
  "old \<noteq> [] \<Longrightarrow> replace_ne old new s = join_str new (split_ne old s)"
proof (induction old s rule: split_ne.induct)
  case (1 sep)
  then show ?case by simp
next
  case (2 sep c cs)
  show ?case
  proof (cases "prefix sep (c # cs)")
    case True
    let ?r = "drop (length sep) (c # cs)"
    have sp: "split_ne sep (c # cs) = [] # split_ne sep ?r" using True 2(3) by simp
    have rp: "replace_ne sep new (c # cs) = new @ replace_ne sep new ?r" using True 2(3) by simp
    have ih: "replace_ne sep new ?r = join_str new (split_ne sep ?r)" using True 2 by simp
    obtain p ps where ps: "split_ne sep ?r = p # ps"
      using split_ne_not_Nil[of sep ?r] by (cases "split_ne sep ?r") auto
    have "join_str new ([] # p # ps) = new @ join_str new (p # ps)" by simp
    then show ?thesis using ih unfolding sp rp ps by simp
  next
    case False
    with 2 have ih: "replace_ne sep new cs = join_str new (split_ne sep cs)" by simp
    obtain p ps where ps: "split_ne sep cs = p # ps"
      using split_ne_not_Nil[of sep cs] by (cases "split_ne sep cs") auto
    with ih False show ?thesis by (cases ps) auto
  qed
qed

lemma strip_no_space: "\<forall>c\<in>set s. \<not> isspace c \<Longrightarrow> strip s = s"
proof -
  assume a: "\<forall>c\<in>set s. \<not> isspace c"
  then have "dropWhile isspace s = s" by (cases s) auto
  moreover from a have "dropWhile isspace (rev s) = rev s" by (cases "rev s") (auto simp: in_set_conv_decomp dest: arg_cong[where f=set])
  ultimately show ?thesis by (simp add: strip_def)
qed

lemma normalize_filter: "normalize_ws t = filter (\<lambda>c. \<not> isspace c) t"
  by (simp add: normalize_ws_def re_sub_ws_def strip_no_space)

lemma normalize_id: "\<forall>c\<in>set s. \<not> isspace c \<Longrightarrow> normalize_ws s = s"
  by (simp add: normalize_filter filter_id_conv)

section \<open>Properties of the automaton\<close>

lemma map_of_trie_set: "map_of (trie_set a k v) = (map_of a)(k \<mapsto> v)"
  by (induction a k v rule: trie_set.induct) (auto simp: fun_eq_iff)

lemma map_of_add_word:
  "map_of (add_word a k v) = (if k = [] then map_of a else (map_of a)(k \<mapsto> v))"
  by (simp add: add_word_def map_of_trie_set)

lemma map_of_add_words_other:
  "k \<notin> set wl \<or> k = [] \<Longrightarrow> map_of (add_words a i wl) k = map_of a k"
  by (induction a i wl rule: add_words.induct) (auto simp: map_of_add_word)

lemma map_of_add_words_in:
  "k \<in> set wl \<Longrightarrow> k \<noteq> [] \<Longrightarrow> \<exists>j. map_of (add_words a i wl) k = Some (j, k)"
proof (induction a i wl rule: add_words.induct)
  case (1 actree index)
  then show ?case by simp
next
  case (2 actree index word wordlist)
  show ?case
  proof (cases "k \<in> set wordlist")
    case True
    with 2 show ?thesis by simp
  next
    case False
    with 2 have "k = word" by simp
    with False 2(3) show ?thesis
      by (simp add: map_of_add_words_other map_of_add_word)
  qed
qed

lemma keys_build_actree: "fst ` set (build_actree wl) = set wl - {[]}"
proof -
  have "dom (map_of (build_actree wl)) = set wl - {[]}"
  proof (intro set_eqI iffI)
    fix k assume "k \<in> dom (map_of (build_actree wl))"
    then have "map_of (add_words [] 0 wl) k \<noteq> None" by (auto simp: build_actree_def)
    moreover have "k \<notin> set wl \<or> k = [] \<longrightarrow> map_of (add_words [] 0 wl) k = None"
      using map_of_add_words_other[of k wl "[]" 0] by simp
    ultimately show "k \<in> set wl - {[]}" by auto
  next
    fix k assume "k \<in> set wl - {[]}"
    then show "k \<in> dom (map_of (build_actree wl))"
      using map_of_add_words_in[of k wl "[]" 0] by (auto simp: build_actree_def)
  qed
  then show ?thesis by (simp add: dom_map_of_conv_image_fst)
qed

lemma value_build_actree:
  assumes "k \<in> fst ` set (build_actree wl)"
  shows "\<exists>j. map_of (build_actree wl) k = Some (j, k)"
proof -
  from assms have "k \<in> set wl" "k \<noteq> []" by (auto simp: keys_build_actree)
  then show ?thesis unfolding build_actree_def by (rule map_of_add_words_in)
qed

lemma values_add_words:
  "\<forall>k j w. map_of a k = Some (j, w) \<longrightarrow> w = k \<Longrightarrow>
   map_of (add_words a i wl) k = Some (j, w) \<Longrightarrow> w = k"
proof (induction a i wl rule: add_words.induct)
  case (1 actree index)
  then show ?case by simp
next
  case (2 actree index word wordlist)
  have "\<forall>k j w. map_of (add_word actree word (index, word)) k = Some (j, w) \<longrightarrow> w = k"
    using 2(2) by (simp add: map_of_add_word)
  from 2(1)[OF this] 2(3) show ?case by simp
qed

lemma values_build_actree: "map_of (build_actree wl) k = Some (j, w) \<Longrightarrow> w = k"
  unfolding build_actree_def using values_add_words[where a="[]" and k=k and j=j and w=w and i=0 and wl=wl] by simp

lemma set_map_filter: "set (List.map_filter f xs) = {y. \<exists>x\<in>set xs. f x = Some y}"
  by (induction xs) (auto split: option.splits)

lemma set_outputs_at:
  "set (outputs_at a pre) = {v. \<exists>i<length pre. map_of a (drop i pre) = Some v}"
  by (auto simp: outputs_at_def set_map_filter)

lemma in_set_reports:
  "(e, v) \<in> set (reports a text) \<longleftrightarrow>
   e < length text \<and> (\<exists>i\<le>e. map_of a (drop i (take (Suc e) text)) = Some v)"
proof -
  have "(e, v) \<in> set (reports a text) \<longleftrightarrow>
        e < length text \<and> v \<in> set (outputs_at a (take (Suc e) text))"
    by (auto simp: reports_def)
  also have "\<dots> \<longleftrightarrow> e < length text \<and>
        (\<exists>i<length (take (Suc e) text). map_of a (drop i (take (Suc e) text)) = Some v)"
    by (simp add: set_outputs_at)
  also have "\<dots> \<longleftrightarrow> e < length text \<and>
        (\<exists>i\<le>e. map_of a (drop i (take (Suc e) text)) = Some v)"
  proof (cases "e < length text")
    case True
    then have "length (take (Suc e) text) = Suc e" by simp
    then show ?thesis by (simp only: less_Suc_eq_le)
  next
    case False
    then show ?thesis by simp
  qed
  finally show ?thesis .
qed

lemma reports_complete:
  assumes "map_of a k = Some v" and "k \<noteq> []" and "s + length k \<le> length text"
    and "take (length k) (drop s text) = k"
  shows "(s + length k - 1, v) \<in> set (reports a text)"
proof -
  from assms(2) have pos: "0 < length k" by simp
  let ?e = "s + length k - 1"
  have e: "Suc ?e = s + length k" using pos by simp
  have "drop s (take (Suc ?e) text) = take (length k) (drop s text)"
    unfolding e by (simp add: drop_take)
  with assms(1,4) have "map_of a (drop s (take (Suc ?e) text)) = Some v" by simp
  moreover have "?e < length text" "s \<le> ?e" using pos assms(3) by linarith+
  ultimately show ?thesis unfolding in_set_reports by blast
qed

lemma reports_sound:
  assumes "(e, v) \<in> set (reports a text)"
  shows "\<exists>k. map_of a k = Some v \<and> k \<noteq> [] \<and> str_in k text"
proof -
  from assms obtain i where i: "e < length text" "i \<le> e"
    "map_of a (drop i (take (Suc e) text)) = Some v"
    unfolding in_set_reports by blast
  let ?k = "drop i (take (Suc e) text)"
  have "?k \<noteq> []" using i by simp
  moreover have "text = take i text @ ?k @ drop (Suc e) text"
  proof -
    have "take (Suc e) text = take i (take (Suc e) text) @ ?k"
      by (simp only: append_take_drop_id)
    also have "take i (take (Suc e) text) = take i text" using i by (simp add: min_def)
    finally have "take (Suc e) text = take i text @ ?k" .
    then have "take (Suc e) text @ drop (Suc e) text = (take i text @ ?k) @ drop (Suc e) text"
      by simp
    then show ?thesis by simp
  qed
  then have "sublist ?k text" unfolding sublist_def by blast
  ultimately show ?thesis using i(3) by (auto simp: str_in_sublist)
qed


lemma match_build_sound:
  assumes "k \<in> set (map (\<lambda>(end_index, (index, word_match)). word_match)
                        (reports (build_actree wl) text))"
  shows "str_in k text \<and> k \<noteq> [] \<and> k \<in> set wl"
proof -
  from assms obtain e j where "(e, (j, k)) \<in> set (reports (build_actree wl) text)"
    by auto
  from reports_sound[OF this] obtain k' where k':
    "map_of (build_actree wl) k' = Some (j, k)" "k' \<noteq> []" "str_in k' text" by blast
  from values_build_actree[OF k'(1)] have "k' = k" by simp
  moreover from k'(1) have "k' \<in> fst ` set (build_actree wl)"
    by (metis domI dom_map_of_conv_image_fst)
  ultimately show ?thesis using k' by (simp add: keys_build_actree)
qed

section \<open>Properties of the dictionary construction\<close>

lemma word_loop_step:
  "word_loop py sp up std (w # ws) (d, wl) =
   word_loop py sp up std ws
     (d(match_key py sp up w \<mapsto> std),
      if match_key py sp up w \<in> set wl then wl else wl @ [match_key py sp up w])"
  by (simp add: Let_def match_key_def)

lemma word_loop_dom:
  "dom (fst (word_loop py sp up std ws st)) = dom (fst st) \<union> match_key py sp up ` set ws"
proof (induction ws arbitrary: st)
  case Nil
  show ?case by simp
next
  case (Cons w ws)
  obtain d wl where st: "st = (d, wl)" by (cases st)
  show ?case unfolding st word_loop_step Cons by simp
qed

lemma word_loop_words:
  "set (snd (word_loop py sp up std ws st)) = set (snd st) \<union> match_key py sp up ` set ws"
proof (induction ws arbitrary: st)
  case Nil
  show ?case by simp
next
  case (Cons w ws)
  obtain d wl where st: "st = (d, wl)" by (cases st)
  show ?case unfolding st word_loop_step Cons by (simp add: insert_absorb)
qed

lemma line_loop_total:
  "\<exists>d wl. line_loop py sp up lines st = Inr (d, wl) \<and>
     dom d = dom (fst st) \<union> (\<Union>line\<in>set lines. match_key py sp up ` set (fields line)) \<and>
     set wl = set (snd st) \<union> (\<Union>line\<in>set lines. match_key py sp up ` set (fields line))"
proof (induction lines arbitrary: st)
  case Nil
  show ?case by (cases st) simp
next
  case (Cons line lines)
  obtain std rest where sp: "fields line = std # rest"
    using split_ne_not_Nil[of "[CHR 0x09]" "strip line"]
    by (cases "fields line") (simp_all add: fields_def)
  let ?st = "word_loop py sp up std (std # rest) st"
  have step: "line_loop py sp up (line # lines) st = line_loop py sp up lines ?st"
    using sp by (simp add: split_str_def fields_def)
  have d: "dom (fst ?st) = dom (fst st) \<union> match_key py sp up ` set (fields line)"
    unfolding sp by (rule word_loop_dom)
  have l: "set (snd ?st) = set (snd st) \<union> match_key py sp up ` set (fields line)"
    unfolding sp by (rule word_loop_words)
  show ?case unfolding step using Cons[of ?st] unfolding d l
    by (simp add: Un_assoc)
qed

lemma init_total:
  assumes "fs path = Some lines"
  shows "\<exists>eng wl. init py fs path up sp = Inr eng \<and> pinyin eng = py \<and> splitter_symbol eng = sp \<and>
           use_pinyin eng = up \<and> ac_synonym eng = build_actree wl \<and>
           set wl = dom (synonym_dict eng) \<and>
           dom (synonym_dict eng) =
             (\<Union>line\<in>set lines. match_key py sp up ` set (fields line))"
proof -
  from line_loop_total[of py sp up lines "(Map.empty, [])"] obtain d wl where dwl:
    "line_loop py sp up lines (Map.empty, []) = Inr (d, wl)"
    "dom d = (\<Union>line\<in>set lines. match_key py sp up ` set (fields line))"
    "set wl = (\<Union>line\<in>set lines. match_key py sp up ` set (fields line))"
    by auto
  let ?eng = "\<lparr>pinyin = py, splitter_symbol = sp, use_pinyin = up,
               synonym_dict = d, ac_synonym = build_actree wl\<rparr>"
  have "init py fs path up sp = Inr ?eng"
    using assms dwl(1) by (simp add: init_def get_synonym_def)
  then show ?thesis using dwl(2,3) by (intro exI[of _ ?eng] exI[of _ wl]) simp
qed

lemma init_compiled:
  assumes "init py fs path up sp = Inr eng"
  shows "\<exists>wl. ac_synonym eng = build_actree wl \<and> set wl = dom (synonym_dict eng) \<and>
              use_pinyin eng = up \<and> splitter_symbol eng = sp \<and> pinyin eng = py"
proof -
  from assms obtain lines where "fs path = Some lines"
    by (auto simp: init_def get_synonym_def split: option.splits)
  from init_total[where fs=fs and path=path and py=py and up=up and sp=sp, OF this] assms
  show ?thesis by auto
qed

section \<open>Properties of the loops of \<open>run\<close>\<close>

lemma mark_inner_eq:
  "mark_inner m i js del =
     (if list_ex (\<lambda>j. i \<noteq> j \<and> str_in (m ! i) (m ! j)) js \<and> i \<notin> set del
      then del @ [i] else del)"
  by (induction m i js del rule: mark_inner.induct) auto

lemma mark_loop_result:
  assumes "mark_loop self text m is (wil, del) = Inr (wil', del')"
    and "distinct is" and "set is \<inter> set del = {}"
  shows "del' = del @ filter (marked m) is \<and>
         map Inr wil' = map Inr wil @ map (\<lambda>i. get_index self text (m ! i) (use_pinyin self)) is"
  using assms
proof (induction "is" arbitrary: wil del)
  case Nil
  then show ?case by simp
next
  case (Cons i "is")
  from Cons.prems(1) obtain wi where wi:
    "get_index self text (m ! i) (use_pinyin self) = Inr wi"
    by (auto split: sum.splits)
  let ?del = "mark_inner m i [0..<length m] del"
  from Cons.prems(3) have del: "?del = (if marked m i then del @ [i] else del)"
    by (simp add: mark_inner_eq marked_def)
  from Cons.prems(1) wi have rec: "mark_loop self text m is (wil @ [wi], ?del) = Inr (wil', del')"
    by simp
  have "set is \<inter> set ?del = {}" using Cons.prems(2,3) by (auto simp: del)
  with Cons.IH[OF rec] Cons.prems(2) have
    "del' = ?del @ filter (marked m) is"
    "map Inr wil' = map Inr (wil @ [wi]) @ map (\<lambda>i. get_index self text (m ! i) (use_pinyin self)) is"
    by simp_all
  then show ?case by (simp add: del wi)
qed

lemma mark_loop_del_index:
  assumes "mark_loop self text m [0..<length m] ([], []) = Inr (wil, del)"
  shows "del = filter (marked m) [0..<length m]"
  using mark_loop_result[OF assms] by simp

lemma get_index_literal:
  "get_index self text k False = Inr (find_str text k, find_str text k + int (length k), k)"
  by (simp add: get_index_def Let_def)

lemma mark_loop_literal:
  assumes "\<not> use_pinyin self"
  shows "\<exists>del. mark_loop self text m is (wil, del0) =
           Inr (wil @ map (\<lambda>i. (find_str text (m ! i), find_str text (m ! i) + int (length (m ! i)), m ! i)) is, del)"
proof (induction "is" arbitrary: wil del0)
  case Nil
  then show ?case by simp
next
  case (Cons i "is")
  let ?wi = "(find_str text (m ! i), find_str text (m ! i) + int (length (m ! i)), m ! i)"
  from Cons[of "wil @ [?wi]" "mark_inner m i [0..<length m] del0"] assms
  show ?case by (simp add: get_index_literal)
qed

lemma pop_loop_subset: "pop_loop del wil = Inr wil' \<Longrightarrow> set wil' \<subseteq> set wil"
proof (induction del arbitrary: wil)
  case Nil
  then show ?case by simp
next
  case (Cons i del)
  from Cons.prems have i: "i < length wil" and
    rec: "pop_loop del (take i wil @ drop (Suc i) wil) = Inr wil'"
    by (auto simp: pop_def split: if_splits)
  from Cons.IH[OF rec] have "set wil' \<subseteq> set (take i wil) \<union> set (drop (Suc i) wil)" by simp
  also have "\<dots> \<subseteq> set wil" using set_take_subset set_drop_subset by fast
  finally show ?case .
qed

lemma resolve_literal_items:
  assumes "\<not> use_pinyin self" and "resolve self text m = Inr items"
    and "(s, e, k) \<in> set items"
  shows "k \<in> set m \<and> s = find_str text k \<and> e = find_str text k + int (length k)"
proof -
  from mark_loop_literal[OF assms(1), of "text" m "[0..<length m]" "[]" "[]"] obtain del where
    ml: "mark_loop self text m [0..<length m] ([], []) =
           Inr (map (\<lambda>i. (find_str text (m ! i), find_str text (m ! i) + int (length (m ! i)), m ! i))
                    [0..<length m], del)" by auto
  with assms(2) have "pop_loop del (map (\<lambda>i. (find_str text (m ! i),
      find_str text (m ! i) + int (length (m ! i)), m ! i)) [0..<length m]) = Inr items"
    by (simp add: resolve_def)
  from pop_loop_subset[OF this] assms(3) show ?thesis by auto
qed

lemma dedup_first_set: "set (dedup_first xs) = set xs"
  by (induction xs) auto

lemma dedup_first_distinct: "distinct (dedup_first xs)"
  by (induction xs) (auto simp: dedup_first_set)


lemma assemble_names:
  assumes "assemble self tr items (u, ss, ns) = Inr (u', ss', ns')"
  shows "\<exists>ps. ss' = ss @ ps \<and> ns' = ns @ filter (\<lambda>c. c \<notin> set ns) (dedup_first (map fst ps))"
  using assms
proof (induction items arbitrary: u ss ns)
  case Nil
  then show ?case by simp
next
  case (Cons item items)
  obtain s e k where item: "item = (s, e, k)" by (cases item) auto
  from Cons.prems item obtain c where c: "synonym_dict self k = Some c"
    by (auto split: option.splits)
  let ?ns = "if c \<notin> set ns then ns @ [c] else ns"
  from Cons.prems item c have rec:
    "assemble self tr items (replace_str u (slice tr s e) c, ss @ [(c, k)], ?ns) = Inr (u', ss', ns')"
    by (simp add: Let_def)
  from Cons.IH[OF rec] obtain ps where ps: "ss' = (ss @ [(c, k)]) @ ps"
    "ns' = ?ns @ filter (\<lambda>x. x \<notin> set ?ns) (dedup_first (map fst ps))" by blast
  have "?ns @ filter (\<lambda>x. x \<notin> set ?ns) (dedup_first (map fst ps))
      = ns @ filter (\<lambda>x. x \<notin> set ns) (c # filter (\<lambda>y. y \<noteq> c) (dedup_first (map fst ps)))"
    by (auto intro!: filter_cong)
  with ps show ?case by (intro exI[of _ "(c, k) # ps"]) simp
qed

lemma assemble_text:
  assumes "assemble self tr items (u, ss, ns) = Inr (u', ss', ns')"
  shows "u' = foldl (substitute self tr) u items"
  using assms
proof (induction items arbitrary: u ss ns)
  case Nil
  then show ?case by simp
next
  case (Cons item items)
  obtain s e k where item: "item = (s, e, k)" by (cases item) auto
  from Cons.prems item obtain c where c: "synonym_dict self k = Some c"
    by (auto split: option.splits)
  from Cons.prems item c have rec:
    "assemble self tr items (replace_str u (slice tr s e) c, ss @ [(c, k)],
        if c \<notin> set ns then ns @ [c] else ns) = Inr (u', ss', ns')"
    by (simp add: Let_def)
  from Cons.IH[OF rec] show ?case by (simp add: item c)
qed

lemma run_run_lists:
  assumes "run eng t = Inr (u, ps, ns)"
  obtains ss where "run_lists eng t = Inr (u, ss, ns)" and "ps = set ss"
  using assms by (auto simp: run_def split: sum.splits)

section \<open>What the marking loops and the offset mapper compute\<close>

lemma str_in_refl: "str_in k k"
  by (simp add: str_in_sublist)

lemma marked_repeated:
  assumes "i < length m" and "j < length m" and "i \<noteq> j" and "m ! i = m ! j"
  shows "marked m i"
  using assms str_in_refl[of "m ! j"] by (auto simp: marked_def list_ex_iff)

lemma find_first:
  assumes "str_in k s"
  shows "\<exists>n. find_str s k = int n \<and> prefix k (drop n s) \<and> (\<forall>i<n. \<not> prefix k (drop i s))"
proof -
  from find_from_spec[OF assms, of 0] obtain n where n:
    "find_str s k = int n" "take (length k) (drop n s) = k" "\<forall>i<n. \<not> prefix k (drop i s)"
    by (auto simp: find_str_def)
  from n(2) have "prefix k (drop n s)" by (metis take_is_prefix)
  with n(1,3) show ?thesis by blast
qed

lemma get_index_default_delimiter:
  assumes "splitter_symbol self = ''@@''"
  shows "get_index self s k True =
           Inr (int (length (split_ne ''@@'' (slice s 0 (find_str s k)))) - 1,
                int (length (split_ne ''@@'' (slice s 0 (find_str s k)))) - 1
                  + int (length (split_ne ''@@'' k)),
                k)"
  using assms by (simp add: get_index_def split_str_def Let_def)

lemma iter_stored: "a \<noteq> [] \<Longrightarrow> iter a text = Inr (reports a text)"
  by (simp add: iter_def)

lemma iter_no_key: "iter [] text = Inl AttributeError"
  by (simp add: iter_def)

lemma run_lists_items:
  assumes "run_lists self t = Inr (u, ss, ns)"
  obtains items where "resolved self t = Inr items"
    and "assemble self (normalize_ws t) items (normalize_ws t, [], []) = Inr (u, ss, ns)"
  using assms by (auto simp: run_lists_def split: sum.splits)

lemma resolved_items:
  assumes "resolved self t = Inr items"
  obtains ms where "match_synonym self t = Inr ms"
    and "resolve self (text_trans self t) ms = Inr items"
  using assms by (auto simp: resolved_def split: sum.splits)

lemma match_synonym_reports:
  assumes "match_synonym self t = Inr ms"
  shows "ac_synonym self \<noteq> [] \<and>
         ms = map (\<lambda>(end_index, (index, word_match)). word_match)
                  (reports (ac_synonym self) (text_trans self t))"
  using assms by (auto simp: match_synonym_def iter_def split: if_splits)





lemma literal_span:
  assumes "init py fs path False sp = Inr eng"
    and "\<forall>x\<in>set u. \<not> isspace x"
    and "resolved eng u = Inr items"
    and "(s, e, k) \<in> set items"
  shows "slice u s e = k \<and> k \<in> dom (synonym_dict eng)"
proof -
  from init_compiled[OF assms(1)] obtain wl where wl:
    "ac_synonym eng = build_actree wl" "set wl = dom (synonym_dict eng)" "\<not> use_pinyin eng"
    by auto
  have nu: "normalize_ws u = u" using assms(2) by (rule normalize_id)
  have tt: "text_trans eng u = u" by (simp add: text_trans_def wl(3) nu)
  from assms(3) obtain ms where ms: "match_synonym eng u = Inr ms" "resolve eng u ms = Inr items"
    by (rule resolved_items[where self=eng and t=u, unfolded tt])
  from match_synonym_reports[OF ms(1)] have msr:
    "ms = map (\<lambda>(end_index, (index, word_match)). word_match) (reports (build_actree wl) u)"
    by (simp add: wl(1) tt)
  from resolve_literal_items[OF wl(3) ms(2) assms(4)]
  have k: "k \<in> set ms" "s = find_str u k" "e = find_str u k + int (length k)" by simp_all
  from k(1) have "str_in k u" "k \<in> set wl"
    using match_build_sound[of k wl u] by (simp_all add: msr)
  from find_slice[OF this(1)] k(2,3) this(2) show ?thesis by (simp add: wl(2))
qed

section \<open>The method calls read the engine and return it as it was\<close>

lemma m_assign_seen: "snd (m_bind (m_assign change) (\<lambda>_. m_return x) self) = change self"
  by (simp add: m_bind_def m_assign_def m_return_def)

lemma get_index_m_eq: "get_index_m scanned k up self = (get_index self scanned k up, self)"
  by (simp add: get_index_m_def get_index_def m_bind_def m_read_def m_lift_def m_return_def
      Let_def split: sum.splits)

lemma mark_loop_m_eq:
  "mark_loop_m scanned ms is st self = (mark_loop self scanned ms is st, self)"
proof (induction "is" arbitrary: st)
  case Nil
  show ?case by (simp add: m_return_def)
next
  case (Cons i "is")
  obtain wil del where st: "st = (wil, del)" by (cases st)
  show ?case unfolding st
    by (simp add: m_bind_def m_read_def get_index_m_eq Cons split: sum.splits)
qed

lemma assemble_m_eq: "assemble_m tr items st self = (assemble self tr items st, self)"
proof (induction items arbitrary: st)
  case Nil
  show ?case by (simp add: m_return_def)
next
  case (Cons item items)
  obtain s e k where item: "item = (s, e, k)" by (cases item) auto
  obtain u ss ns where st: "st = (u, ss, ns)" by (cases st) auto
  show ?case unfolding item st
    by (simp add: m_bind_def m_read_def m_raise_def Cons Let_def split: option.splits)
qed

lemma run_m_eq: "run_m t self = (run self t, self)"
  by (simp add: run_m_def run_def run_lists_def resolved_def match_synonym_def resolve_def
      text_trans_def m_bind_def m_read_def m_lift_def m_return_def mark_loop_m_eq assemble_m_eq
      split: sum.splits prod.splits)

lemma run_empty_text:
  assumes "init py fs path False sp = Inr eng" and "ac_synonym eng \<noteq> []"
  shows "run eng [] = Inr ([], {}, [])"
proof -
  from init_compiled[OF assms(1)] have lit: "\<not> use_pinyin eng" by auto
  have n: "normalize_ws [] = []" by (simp add: normalize_ws_def re_sub_ws_def strip_def)
  have "reports (ac_synonym eng) [] = []" by (simp add: reports_def)
  then have "match_synonym eng [] = Inr []"
    by (simp add: match_synonym_def iter_def assms(2) text_trans_def lit n)
  then have "run_lists eng [] = Inr ([], [], [])"
    by (simp add: run_lists_def resolved_def resolve_def text_trans_def lit n)
  then show ?thesis by (simp add: run_def)
qed

section \<open>The example engines are compiled dictionaries\<close>

lemmas init_eval = init_def get_synonym_def split_str_def strip_def isspace_def build_actree_def
  add_word_def Let_def letters_def

lemma nested_engine_init:
  "init letters [''synonym.txt'' \<mapsto> nested_lines] ''synonym.txt'' False ''@@'' = Inr nested_engine"
  by (simp add: init_eval nested_lines_def nested_engine_def)

lemma repeat_engine_init:
  "init letters [''synonym.txt'' \<mapsto> repeat_lines] ''synonym.txt'' False ''@@'' = Inr repeat_engine"
  by (simp add: init_eval repeat_lines_def repeat_engine_def)


lemma dash_engine_init:
  "init letters [''synonym.txt'' \<mapsto> dash_lines] ''synonym.txt'' True ''-'' = Inr dash_engine"
  by (simp add: init_eval dash_lines_def dash_engine_def)

lemma phon_engine_init:
  "init letters [''synonym.txt'' \<mapsto> dash_lines] ''synonym.txt'' True ''@@'' = Inr phon_engine"
  by (simp add: init_eval dash_lines_def phon_engine_def)

lemma spaced_engine_init:
  "init letters [''synonym.txt'' \<mapsto> spaced_lines] ''synonym.txt'' False ''@@'' = Inr spaced_engine"
  by (simp add: init_eval spaced_lines_def spaced_engine_def)


section \<open>The claims\<close>

subsection \<open>Overlap resolution\<close>

text \<open>
  Claim C1: the overlap resolver discards exactly the occurrences whose key is a substring of
  the key of another occurrence, and keeps the others in scan order. The loops mark exactly
  those positions (\<open>mark_loop_del_index\<close>), but the removal pops each marked position from the
  list that the earlier pops have already shortened. With the nested variants \<open>a\<close>, \<open>ab\<close>,
  \<open>abc\<close> and the text \<open>abc\<close> the positions 0 and 1 are marked; the pops remove the entries
  of \<open>a\<close> and of \<open>abc\<close>, and the entry of \<open>ab\<close> is the one retained and substituted.
\<close>

theorem resolver_pops_shifted_positions:
  "init letters [''synonym.txt'' \<mapsto> nested_lines] ''synonym.txt'' False ''@@'' = Inr nested_engine \<and>
   match_synonym nested_engine ''abc'' = Inr [''a'', ''ab'', ''abc''] \<and>
   mark_loop nested_engine ''abc'' [''a'', ''ab'', ''abc''] [0, 1, 2] ([], []) =
     Inr ([(0, 1, ''a''), (0, 2, ''ab''), (0, 3, ''abc'')], [0, 1]) \<and>
   pop_loop [0, 1] [(0, 1, ''a''), (0, 2, ''ab''), (0::int, 3::int, ''abc'')] = Inr [(0, 2, ''ab'')] \<and>
   run nested_engine ''abc'' = Inr (''Yc'', {(''Y'', ''ab'')}, [''Y''])"
  using nested_engine_init by (rule conjI) code_simp

text \<open>
  Claim C10: when a key occurs twice or more in the scanned text, every one of its occurrences
  is marked and so none survives. Every one is marked (\<open>marked_repeated\<close>), but the shifted
  pops let one through: in \<open>aac\<close> both occurrences of \<open>a\<close> are marked, the entry of the
  second one survives in place of the entry of \<open>c\<close>, and \<open>a\<close> is substituted. When the
  repeated key is all there is, as in \<open>aa\<close>, the second pop is out of range.
\<close>

theorem repeated_key_survives:
  "init letters [''synonym.txt'' \<mapsto> repeat_lines] ''synonym.txt'' False ''@@'' = Inr repeat_engine \<and>
   match_synonym repeat_engine ''aac'' = Inr [''a'', ''a'', ''c''] \<and>
   mark_loop repeat_engine ''aac'' [''a'', ''a'', ''c''] [0, 1, 2] ([], []) =
     Inr ([(0, 1, ''a''), (0, 1, ''a''), (2, 3, ''c'')], [0, 1]) \<and>
   resolve repeat_engine ''aac'' [''a'', ''a'', ''c''] = Inr [(0, 1, ''a'')] \<and>
   run repeat_engine ''aac'' = Inr (''AAc'', {(''A'', ''a'')}, [''A'']) \<and>
   run repeat_engine ''aa'' = Inl IndexError"
  using repeat_engine_init by (rule conjI) code_simp

subsection \<open>The scan\<close>

text \<open>
  Claim C2: the scan reports every occurrence of every MatchKey in the scanned text, nested
  and overlapping occurrences included. For an engine compiled from a dictionary, the keys of
  the automaton are the non-empty keys of the dictionary; for each of them and each position
  \<open>s\<close> at which it occurs in the text, the scan reports the occurrence (by the index of its
  last character), and the key is among the words that \<open>run\<close> collects.
\<close>

theorem scan_reports_every_occurrence:
  assumes "init py fs path up sp = Inr eng"
    and "k \<in> fst ` set (ac_synonym eng)"
    and "s + length k \<le> length text"
    and "take (length k) (drop s text) = k"
  shows "fst ` set (ac_synonym eng) = dom (synonym_dict eng) - {[]} \<and>
         (\<exists>ms. iter (ac_synonym eng) text = Inr ms \<and>
               (\<exists>j. (s + length k - 1, (j, k)) \<in> set ms) \<and>
               k \<in> set (map (\<lambda>(end_index, (index, word_match)). word_match) ms))"
proof -
  from init_compiled[OF assms(1)] obtain wl where wl:
    "ac_synonym eng = build_actree wl" "set wl = dom (synonym_dict eng)" by blast
  have keys: "fst ` set (ac_synonym eng) = dom (synonym_dict eng) - {[]}"
    by (simp add: wl keys_build_actree)
  from assms(2) value_build_actree[of k wl] obtain j where
    j: "map_of (ac_synonym eng) k = Some (j, k)" by (auto simp: wl(1))
  from assms(2) keys have "k \<noteq> []" by auto
  from reports_complete[OF j this assms(3,4)]
  have m: "(s + length k - 1, (j, k)) \<in> set (reports (ac_synonym eng) text)" .
  then have c: "k \<in> set (map (\<lambda>(end_index, (index, word_match)). word_match)
                      (reports (ac_synonym eng) text))" by force
  from assms(2) have "ac_synonym eng \<noteq> []" by auto
  then have "iter (ac_synonym eng) text = Inr (reports (ac_synonym eng) text)"
    by (rule iter_stored)
  with keys m c show ?thesis by blast
qed

text \<open>The occurrence of \<open>ab\<close> in \<open>abc\<close>, which lies inside that of \<open>abc\<close> and contains that of \<open>a\<close>.\<close>

theorem scan_reports_every_occurrence_witness:
  "init letters [''synonym.txt'' \<mapsto> nested_lines] ''synonym.txt'' False ''@@'' = Inr nested_engine \<and>
   ''ab'' \<in> fst ` set (ac_synonym nested_engine) \<and>
   0 + length ''ab'' \<le> length ''abc'' \<and> take (length ''ab'') (drop 0 ''abc'') = ''ab'' \<and>
   (\<exists>ms. iter (ac_synonym nested_engine) ''abc'' = Inr ms \<and> (\<exists>j. (1, (j, ''ab'')) \<in> set ms))"
proof -
  have h1: "init letters [''synonym.txt'' \<mapsto> nested_lines] ''synonym.txt'' False ''@@'' = Inr nested_engine"
    by (rule nested_engine_init)
  have h2: "''ab'' \<in> fst ` set (ac_synonym nested_engine)" by (simp add: nested_engine_def)
  have h3: "0 + length ''ab'' \<le> length ''abc''" by simp
  have h4: "take (length ''ab'') (drop 0 ''abc'') = ''ab''" by simp
  from scan_reports_every_occurrence[OF h1 h2 h3 h4] obtain ms j where
    "iter (ac_synonym nested_engine) ''abc'' = Inr ms"
    "(0 + length ''ab'' - 1, (j, ''ab'')) \<in> set ms"
    by (elim conjE exE)
  then have "\<exists>ms. iter (ac_synonym nested_engine) ''abc'' = Inr ms \<and>
                 (\<exists>j. (1, (j, ''ab'')) \<in> set ms)" by auto
  with h1 h2 h3 h4 show ?thesis by (intro conjI)
qed

subsection \<open>The offset mapper\<close>

text \<open>
  Claim C3: in phonetic mode the start index is the number of segments, separated by the
  configured delimiter, before the first occurrence of the key, and the end index is the start
  plus the number of tokens of the key. \<open>get_index\<close> counts the tokens of the key with the
  configured delimiter, but the segments before the key with the fixed delimiter \<open>@@\<close>; the
  two agree for the default delimiter only (\<open>get_index_default_delimiter\<close>). With the
  delimiter \<open>-\<close> the key \<open>h-m\<close> in \<open>n-h-m\<close> has one segment before it, and the code
  returns the range from 0 to 2, so that \<open>run\<close> replaces \<open>nh\<close> instead of \<open>hm\<close>.
\<close>

theorem get_index_fixed_delimiter:
  "init letters [''synonym.txt'' \<mapsto> dash_lines] ''synonym.txt'' True ''-'' = Inr dash_engine \<and>
   text_trans dash_engine ''nhm'' = ''n-h-m'' \<and>
   get_index dash_engine ''n-h-m'' ''h-m'' True = Inr (0, 2, ''h-m'') \<and>
   run dash_engine ''nhm'' = Inr (''Zm'', {(''Z'', ''h-m'')}, [''Z''])"
  using dash_engine_init by (rule conjI) code_simp

subsection \<open>Dictionary construction\<close>

text \<open>
  Claim C4: construction fails with \<open>DictionaryLoadError\<close> when a record has no variant.
  The code has no such error: the dictionary whose first record is a canonical name alone is
  compiled, and the name is a key of it.
\<close>

theorem zero_variant_record_accepted:
  "init letters [''synonym.txt'' \<mapsto> bank_lines] ''synonym.txt'' False ''@@'' = Inr bank_engine"
  by (simp add: init_eval bank_lines_def bank_engine_def)

text \<open>
  Claim C4, as amended: on every readable source the construction returns an engine, whatever
  the records are; a record that consists of a canonical name alone makes that name (its
  transliteration in phonetic mode) a key of the dictionary and, when it is not empty, of the
  automaton.
\<close>

theorem init_accepts_zero_variants:
  assumes "fs path = Some lines"
  shows "\<exists>eng. init py fs path up sp = Inr eng \<and>
           (\<forall>line\<in>set lines. \<forall>c. split_str (strip line) [CHR 0x09] = Inr [c] \<longrightarrow>
              match_key py sp up c \<in> dom (synonym_dict eng) \<and>
              (match_key py sp up c \<noteq> [] \<longrightarrow>
                 match_key py sp up c \<in> fst ` set (ac_synonym eng)))"
proof -
  from init_total[where fs=fs and path=path and lines=lines and py=py and up=up and sp=sp, OF assms] obtain eng wl where eng:
    "init py fs path up sp = Inr eng" "ac_synonym eng = build_actree wl"
    "set wl = dom (synonym_dict eng)"
    "dom (synonym_dict eng) = (\<Union>line\<in>set lines. match_key py sp up ` set (fields line))"
    by blast
  have "match_key py sp up c \<in> dom (synonym_dict eng) \<and>
        (match_key py sp up c \<noteq> [] \<longrightarrow> match_key py sp up c \<in> fst ` set (ac_synonym eng))"
    if "line \<in> set lines" "split_str (strip line) [CHR 0x09] = Inr [c]" for line c
  proof -
    from that(2) have "fields line = [c]" by (simp add: split_str_def fields_def)
    with that(1) have "match_key py sp up c \<in> dom (synonym_dict eng)"
      unfolding eng(4) by force
    then show ?thesis by (simp add: eng(2,3) keys_build_actree)
  qed
  with eng(1) show ?thesis by blast
qed

theorem init_accepts_zero_variants_witness:
  "[''synonym.txt'' \<mapsto> bank_lines] ''synonym.txt'' = Some bank_lines \<and>
   ''N'' @ [CHR 0x0A] \<in> set bank_lines \<and>
   split_str (strip (''N'' @ [CHR 0x0A])) [CHR 0x09] = Inr [''N''] \<and>
   (\<exists>eng. init letters [''synonym.txt'' \<mapsto> bank_lines] ''synonym.txt'' False ''@@'' = Inr eng \<and>
      ''N'' \<in> dom (synonym_dict eng) \<and> ''N'' \<in> fst ` set (ac_synonym eng))"
proof -
  have h1: "[''synonym.txt'' \<mapsto> bank_lines] ''synonym.txt'' = Some bank_lines" by simp
  have h2: "''N'' @ [CHR 0x0A] \<in> set bank_lines" by (simp add: bank_lines_def)
  have h3: "split_str (strip (''N'' @ [CHR 0x0A])) [CHR 0x09] = Inr [''N'']"
    by (simp add: split_str_def strip_def isspace_def)
  have mk: "match_key letters ''@@'' False ''N'' = ''N''" by (simp add: match_key_def)
  from init_accepts_zero_variants[where fs="[''synonym.txt'' \<mapsto> bank_lines]"
      and path="''synonym.txt''" and lines=bank_lines and py=letters and up=False and sp="''@@''",
      OF h1] obtain eng where eng:
    "init letters [''synonym.txt'' \<mapsto> bank_lines] ''synonym.txt'' False ''@@'' = Inr eng"
    "\<forall>line\<in>set bank_lines. \<forall>c. split_str (strip line) [CHR 0x09] = Inr [c] \<longrightarrow>
       match_key letters ''@@'' False c \<in> dom (synonym_dict eng) \<and>
       (match_key letters ''@@'' False c \<noteq> [] \<longrightarrow>
          match_key letters ''@@'' False c \<in> fst ` set (ac_synonym eng))"
    by blast
  from eng(2) h2 h3 have "match_key letters ''@@'' False ''N'' \<in> dom (synonym_dict eng) \<and>
       (match_key letters ''@@'' False ''N'' \<noteq> [] \<longrightarrow>
          match_key letters ''@@'' False ''N'' \<in> fst ` set (ac_synonym eng))" by blast
  then have "''N'' \<in> dom (synonym_dict eng) \<and> ''N'' \<in> fst ` set (ac_synonym eng)"
    unfolding mk by simp
  with eng(1) h1 h2 h3 show ?thesis by blast
qed

subsection \<open>Substitution\<close>

text \<open>
  Claim C5: for every resolved match the assembler replaces all occurrences of the matched
  literal in the whole corrected text by the canonical name, not only the text at the span.
  The corrected text is the input text after one whole-text replacement per resolved match,
  in order, each on the text that the previous ones produced; and a whole-text replacement of
  a non-empty literal cuts the text at all the occurrences that \<open>split_str\<close> finds and joins the
  pieces with the canonical name.
\<close>

theorem substitution_is_whole_text_replace:
  assumes "run eng t = Inr (u, ps, ns)"
  shows "(\<exists>items. resolved eng t = Inr items \<and>
            u = foldl (substitute eng (normalize_ws t)) (normalize_ws t) items) \<and>
         (\<forall>txt old new. old \<noteq> [] \<longrightarrow>
            replace_str txt old new = join_str new (split_ne old txt) \<and>
            join_str old (split_ne old txt) = txt)"
proof -
  from assms obtain ss where "run_lists eng t = Inr (u, ss, ns)" by (rule run_run_lists)
  then obtain items where items:
    "resolved eng t = Inr items"
    "assemble eng (normalize_ws t) items (normalize_ws t, [], []) = Inr (u, ss, ns)"
    by (rule run_lists_items)
  from assemble_text[OF items(2)] items(1)
  have "\<exists>items. resolved eng t = Inr items \<and>
            u = foldl (substitute eng (normalize_ws t)) (normalize_ws t) items" by blast
  moreover have "replace_str s old new = join_str new (split_ne old s) \<and>
      join_str old (split_ne old s) = s" if "old \<noteq> []" for s :: string and old new
    using that by (simp add: replace_str_def replace_ne_split_join split_ne_join)
  ultimately show ?thesis by blast
qed

text \<open>One resolved match of \<open>c\<close> in \<open>cca\<close>: both occurrences of \<open>c\<close> are replaced.\<close>

theorem substitution_is_whole_text_replace_witness:
  "run repeat_engine ''cca'' = Inr (''CCa'', {(''C'', ''c'')}, [''C'']) \<and>
   resolved repeat_engine ''cca'' = Inr [(0, 1, ''c'')] \<and>
   ''CCa'' = foldl (substitute repeat_engine (normalize_ws ''cca'')) (normalize_ws ''cca'') [(0, 1, ''c'')] \<and>
   ''c'' \<noteq> [] \<and>
   replace_str ''cca'' ''c'' ''C'' = join_str ''C'' (split_ne ''c'' ''cca'') \<and>
   join_str ''c'' (split_ne ''c'' ''cca'') = ''cca''"
proof -
  have h: "run repeat_engine ''cca'' = Inr (''CCa'', {(''C'', ''c'')}, [''C''])" by code_simp
  have r: "resolved repeat_engine ''cca'' = Inr [(0, 1, ''c'')]" by code_simp
  have ne: "''c'' \<noteq> []" by simp
  note inst = substitution_is_whole_text_replace[OF h]
  from inst[THEN conjunct1] obtain items where items:
    "resolved repeat_engine ''cca'' = Inr items"
    "''CCa'' = foldl (substitute repeat_engine (normalize_ws ''cca'')) (normalize_ws ''cca'') items"
    by (elim exE conjE)
  from items(1) r have "items = [(0, 1, ''c'')]" by (simp only: sum.inject)
  with items(2) have f: "''CCa'' = foldl (substitute repeat_engine (normalize_ws ''cca''))
      (normalize_ws ''cca'') [(0, 1, ''c'')]" by (simp only:)
  from inst[THEN conjunct2, rule_format, OF ne, of "''cca''" "''C''"]
  have g: "replace_str ''cca'' ''c'' ''C'' = join_str ''C'' (split_ne ''c'' ''cca'') \<and>
     join_str ''c'' (split_ne ''c'' ''cca'') = ''cca''" .
  show ?thesis by (intro conjI h r f ne g[THEN conjunct1] g[THEN conjunct2])
qed

text \<open>
  Claim C7: in every result of \<open>run\<close> the pairs are deduplicated as an unordered set and the
  canonical names are deduplicated in order of first occurrence. The pairs returned are the
  set of the pairs emitted, and the names are duplicate-free and equal to the first-occurrence
  deduplication of the canonical names of the pairs in the order of emission.
\<close>

theorem result_pairs_and_names:
  assumes "run eng t = Inr (u, ps, ns)"
  shows "\<exists>ss. run_lists eng t = Inr (u, ss, ns) \<and> ps = set ss \<and>
              distinct ns \<and> ns = dedup_first (map fst ss)"
proof -
  from assms obtain ss where ss: "run_lists eng t = Inr (u, ss, ns)" "ps = set ss"
    by (rule run_run_lists)
  from ss(1) obtain items where
    "assemble eng (normalize_ws t) items (normalize_ws t, [], []) = Inr (u, ss, ns)"
    by (rule run_lists_items)
  from assemble_names[OF this] have "ns = dedup_first (map fst ss)" by auto
  with ss show ?thesis by (auto simp: dedup_first_distinct)
qed

text \<open>The variants \<open>A\<close> and \<open>a\<close> of one entry in one text: two pairs, one name.\<close>

theorem result_pairs_and_names_witness:
  "run repeat_engine ''Aa'' = Inr (''AA'', {(''A'', ''A''), (''A'', ''a'')}, [''A'']) \<and>
   run_lists repeat_engine ''Aa'' = Inr (''AA'', [(''A'', ''A''), (''A'', ''a'')], [''A'']) \<and>
   distinct [''A''] \<and> [''A''] = dedup_first (map fst [(''A'', ''A''), (''A'', ''a'')])"
proof -
  have h: "run repeat_engine ''Aa'' = Inr (''AA'', {(''A'', ''A''), (''A'', ''a'')}, [''A''])"
    by code_simp
  have l: "run_lists repeat_engine ''Aa'' = Inr (''AA'', [(''A'', ''A''), (''A'', ''a'')], [''A''])"
    by code_simp
  from result_pairs_and_names[OF h] obtain ss where ss:
    "run_lists repeat_engine ''Aa'' = Inr (''AA'', ss, [''A''])"
    "distinct [''A'']" "[''A''] = dedup_first (map fst ss)" by (elim exE conjE)
  from ss(1) l have "ss = [(''A'', ''A''), (''A'', ''a'')]" by (simp only: sum.inject prod.inject)
  with ss(3) have d: "[''A''] = dedup_first (map fst [(''A'', ''A''), (''A'', ''a'')])"
    by (simp only:)
  show ?thesis by (intro conjI h l ss(2) d)
qed

subsection \<open>Texts without matches\<close>




subsection \<open>Running twice\<close>




subsection \<open>The engine is not modified\<close>

text \<open>
  Claim C9: \<open>run\<close> leaves the engine as it was: the dictionary, the automaton, the delimiter
  and the mode flag are the same after the call, and a later call sees the same engine. The
  statement is about \<open>run_m\<close>, the body of \<open>run\<close> as a transformer of the object: each of
  its steps, those of \<open>get_index\<close> and of the loops included, hands on the object it
  received, whether the call returns or raises, and the value of the call is that of \<open>run\<close>.
\<close>

theorem run_preserves_engine:
  "snd (run_m t eng) = eng \<and>
   synonym_dict (snd (run_m t eng)) = synonym_dict eng \<and>
   ac_synonym (snd (run_m t eng)) = ac_synonym eng \<and>
   splitter_symbol (snd (run_m t eng)) = splitter_symbol eng \<and>
   use_pinyin (snd (run_m t eng)) = use_pinyin eng \<and>
   fst (run_m t' (snd (run_m t eng))) = fst (run_m t' eng) \<and>
   fst (run_m t eng) = run eng t"
  by (simp add: run_m_eq)

end
